theory Spec2Isabelle
  imports Main
begin

section \<open>SMILES to VLA-SMILES converter: a shallow embedding of \<open>smiles_to_vla_smiles.py\<close>\<close>

text \<open>
  The development follows the source file function by function. Python integers are
  \<^typ>\<open>int\<close>. An exception that the source can raise is a value of \<open>error\<close>, named after
  the Python exception, and a function that can raise returns \<open>error + 'a\<close>.
\<close>

datatype error = ValueError | IndexError | ZeroDivisionError | OverflowError

subsection \<open>\<open>find_divisors\<close>\<close>

text \<open>
  \<^verbatim>\<open>
  def find_divisors(n):
      divisors = []
      for i in range(1, n + 1):
          if n % i == 0:
              divisors.append(i)
      return divisors
  \<close>
  \<open>range(1, n + 1)\<close> is the list \<open>[1..n]\<close>, empty when \<open>n \<le> 0\<close>. Every \<open>i\<close> of the range
  is positive, so \<open>n % i\<close> never divides by zero and is \<open>n mod i\<close>. The function has no
  raising statement.
\<close>

fun find_divisors_loop :: "int \<Rightarrow> int list \<Rightarrow> int list \<Rightarrow> int list" where
  "find_divisors_loop n [] divisors = divisors"
| "find_divisors_loop n (i # rest) divisors =
     find_divisors_loop n rest (if n mod i = 0 then divisors @ [i] else divisors)"

definition find_divisors :: "int \<Rightarrow> int list" where
  "find_divisors n = find_divisors_loop n [1..n] []"

subsection \<open>\<open>smiles_to_binary\<close>\<close>

text \<open>
  A raw SMILES string is a Python \<open>str\<close>: a sequence of Unicode code points. It is modelled
  as the list of its code points, so \<open>ord(c)\<close> is the list element itself and \<open>len\<close> is
  \<^const>\<open>length\<close>. The strings that the program produces contain only the characters
  \<open>0\<close> and \<open>1\<close> and are modelled as \<^typ>\<open>string\<close>.
\<close>

type_synonym pystr = "nat list"

definition bit_char :: "nat \<Rightarrow> char" where
  "bit_char b = (if b = 0 then CHR ''0'' else CHR ''1'')"

text \<open>
  \<open>format(n, 'b')\<close>: the binary digits of \<open>n\<close>, most significant first, without leading
  zeros (\<open>0\<close> is the single digit \<open>0\<close>).
\<close>

fun format_b :: "nat \<Rightarrow> string" where
  "format_b n = (if n < 2 then [bit_char n] else format_b (n div 2) @ [bit_char (n mod 2)])"

declare format_b.simps [simp del]

text \<open>
  \<open>f'{n:08b}'\<close>: the binary digits, padded on the left with \<open>0\<close> to a width of at least 8.
  A number of more than 8 digits is not truncated.
\<close>

definition format_08b :: "nat \<Rightarrow> string" where
  "format_08b n = (let digits = format_b n in replicate (8 - length digits) CHR ''0'' @ digits)"

text \<open>
  \<^verbatim>\<open>
  def smiles_to_binary(smiles, max_length):
      binary_sequence = ''.join(f'{ord(c):08b}' for c in smiles)
      padding_length = max_length - len(binary_sequence)
      return binary_sequence + '0' * padding_length
  \<close>
  \<open>'0' * padding_length\<close> is the empty string when \<open>padding_length\<close> is negative.
\<close>

definition smiles_to_binary :: "pystr \<Rightarrow> int \<Rightarrow> string" where
  "smiles_to_binary smiles max_length =
     (let binary_sequence = concat (map format_08b smiles);
          padding_length = max_length - int (length binary_sequence)
      in binary_sequence @ replicate (nat padding_length) CHR ''0'')"

subsection \<open>The matrix of \<open>transform_to_vla\<close>\<close>

text \<open>
  \<open>np.zeros((n, m))\<close> creates an array of IEEE 754 double-precision numbers (the default
  dtype \<open>float64\<close>), and \<open>vla_smiles[i1][i] = r20\<close> converts the Python integer \<open>r20\<close> to a
  double: correctly rounded, ties to even, \<open>OverflowError\<close> when the rounded value would
  reach \<open>2 ^ 1024\<close>. Every double obtained this way is an integer, so a cell is modelled
  by the integer value of the double it holds and a matrix is a list of rows.
\<close>

type_synonym matrix = "int list list"

fun bit_length :: "nat \<Rightarrow> nat" where
  "bit_length n = (if n = 0 then 0 else Suc (bit_length (n div 2)))"

declare bit_length.simps [simp del]

text \<open>Rounding a non-negative integer to 53 significant bits, ties to even.\<close>

definition round53 :: "nat \<Rightarrow> nat" where
  "round53 r =
     (let n = bit_length r in
      if n \<le> 53 then r
      else
        let shift = n - 53;
            q = r div 2 ^ shift;
            rest = r mod 2 ^ shift;
            half = 2 ^ (shift - 1);
            q' = (if half < rest \<or> (rest = half \<and> odd q) then q + 1 else q)
        in q' * 2 ^ shift)"

definition float64_of_int :: "int \<Rightarrow> error + int" where
  "float64_of_int r =
     (let v = round53 (nat \<bar>r\<bar>) in
      if 2 ^ 1024 \<le> v then Inl OverflowError else Inr (sgn r * int v))"

text \<open>\<open>np.zeros((n, m))\<close> raises \<open>ValueError\<close> for a negative dimension.\<close>

definition np_zeros :: "nat \<Rightarrow> int \<Rightarrow> error + matrix" where
  "np_zeros n m = (if m < 0 then Inl ValueError else Inr (replicate n (replicate (nat m) 0)))"

text \<open>\<open>vla_smiles[i1][i] = r20\<close>, for indices inside the matrix.\<close>

definition setitem :: "matrix \<Rightarrow> nat \<Rightarrow> nat \<Rightarrow> int \<Rightarrow> error + matrix" where
  "setitem vla i1 i r20 =
     (case float64_of_int r20 of
        Inl e \<Rightarrow> Inl e
      | Inr v \<Rightarrow> Inr (vla[i1 := (vla ! i1)[i := v]]))"

subsection \<open>\<open>transform_to_vla\<close>\<close>

text \<open>
  The bit strings given to \<open>transform_to_vla\<close> are modelled as \<^typ>\<open>string\<close>, whose
  characters have code points below 256. \<open>int(c)\<close> of a one-character string is the
  digit's value for the decimal digits \<open>0\<close> to \<open>9\<close> and raises \<open>ValueError\<close> for every
  other character of that range.
\<close>

definition py_int :: "char \<Rightarrow> error + int" where
  "py_int c =
     (let n = (of_char c :: nat) in
      if 48 \<le> n \<and> n \<le> 57 then Inr (int n - 48) else Inl ValueError)"

text \<open>
  \<open>[int(s[j]) for j in js]\<close>, left to right: \<open>s[j]\<close> raises \<open>IndexError\<close> past the end of
  \<open>s\<close>, then \<open>int\<close> may raise \<open>ValueError\<close>. The indices are never negative.
\<close>

fun read_bits :: "string \<Rightarrow> nat list \<Rightarrow> error + int list" where
  "read_bits s [] = Inr []"
| "read_bits s (j # js) =
     (if j < length s then
        (case py_int (s ! j) of
           Inl e \<Rightarrow> Inl e
         | Inr b \<Rightarrow> (case read_bits s js of Inl e \<Rightarrow> Inl e | Inr bs \<Rightarrow> Inr (b # bs)))
      else Inl IndexError)"

text \<open>\<open>sum(bit * 2 ** (k - idx - 1) for idx, bit in enumerate(bits))\<close>, with \<open>idx < k\<close>.\<close>

definition positional_sum :: "nat \<Rightarrow> int list \<Rightarrow> int" where
  "positional_sum k bits = sum_list (map (\<lambda>(idx, bit). bit * 2 ^ (k - idx - 1)) (enumerate 0 bits))"

text \<open>
  The body of the two loops up to the assignment (lines 56 to 62), for the row \<open>s\<close> and the
  group \<open>i\<close>: \<open>None\<close> is the \<open>continue\<close>, \<open>Some r20\<close> the value that line 64 assigns.
  \<^verbatim>\<open>
  bits = [int(smiles[i1][j]) for j in range(i * k, (i + 1) * k)]
  bits = [bit if bit >= 0 else 2 for bit in bits]
  r20 = sum(bit * 2 ** (k - idx - 1) for idx, bit in enumerate(bits))
  if r20 == 0:
      continue
  bits = [0 if bit == 2 else bit for bit in bits]
  r20 = sum(bit * 2 ** (k - idx - 1) for idx, bit in enumerate(bits))
  \<close>
\<close>

definition group_value :: "string \<Rightarrow> nat \<Rightarrow> nat \<Rightarrow> error + int option" where
  "group_value s k i =
     (case read_bits s [i * k ..< (i + 1) * k] of
        Inl e \<Rightarrow> Inl e
      | Inr bits0 \<Rightarrow>
          let bits1 = map (\<lambda>bit. if bit \<ge> 0 then bit else 2) bits0;
              r20 = positional_sum k bits1
          in if r20 = 0 then Inr None
             else
               let bits2 = map (\<lambda>bit. if bit = 2 then 0 else bit) bits1;
                   r20 = positional_sum k bits2
               in Inr (Some r20))"

text \<open>
  The loop \<open>for i in range(sequence_length // k)\<close> for the row \<open>i1\<close> and the loop
  \<open>for i1 in range(num_samples)\<close> around it. The matrix is the state; an exception ends
  both loops. The loop body is a parameter, so that the same loops run the body above
  and the body without the second computation of \<open>r20\<close>.
\<close>

fun group_loop ::
  "(string \<Rightarrow> nat \<Rightarrow> nat \<Rightarrow> error + int option) \<Rightarrow> string list \<Rightarrow> nat \<Rightarrow> nat \<Rightarrow> nat list
     \<Rightarrow> matrix \<Rightarrow> error + matrix" where
  "group_loop body smiles k i1 [] vla = Inr vla"
| "group_loop body smiles k i1 (i # rest) vla =
     (case body (smiles ! i1) k i of
        Inl e \<Rightarrow> Inl e
      | Inr None \<Rightarrow> group_loop body smiles k i1 rest vla
      | Inr (Some r20) \<Rightarrow>
          (case setitem vla i1 i r20 of
             Inl e \<Rightarrow> Inl e
           | Inr vla' \<Rightarrow> group_loop body smiles k i1 rest vla'))"

fun sample_loop ::
  "(string \<Rightarrow> nat \<Rightarrow> nat \<Rightarrow> error + int option) \<Rightarrow> string list \<Rightarrow> nat \<Rightarrow> nat \<Rightarrow> nat list
     \<Rightarrow> matrix \<Rightarrow> error + matrix" where
  "sample_loop body smiles k cols [] vla = Inr vla"
| "sample_loop body smiles k cols (i1 # rest) vla =
     (case group_loop body smiles k i1 [0 ..< cols] vla of
        Inl e \<Rightarrow> Inl e
      | Inr vla' \<Rightarrow> sample_loop body smiles k cols rest vla')"

text \<open>
  \<^verbatim>\<open>
  def transform_to_vla(smiles, k):
      num_samples = len(smiles)
      sequence_length = len(smiles[0])
      vla_smiles = np.zeros((num_samples, sequence_length // k))
      for i1 in range(num_samples):
          for i in range(sequence_length // k):
              ...
              vla_smiles[i1][i] = r20
      return vla_smiles
  \<close>
  \<open>smiles[0]\<close> raises \<open>IndexError\<close> on the empty list and \<open>//\<close> raises
  \<open>ZeroDivisionError\<close> for \<open>k = 0\<close>; \<open>//\<close> is the floor division \<open>div\<close> of \<^typ>\<open>int\<close>.
  The loop body runs only when \<open>sequence_length // k \<ge> 1\<close>, hence only for \<open>k \<ge> 1\<close>.
\<close>

definition transform_with ::
  "(string \<Rightarrow> nat \<Rightarrow> nat \<Rightarrow> error + int option) \<Rightarrow> string list \<Rightarrow> int \<Rightarrow> error + matrix" where
  "transform_with body smiles k =
     (let num_samples = length smiles in
      case smiles of
        [] \<Rightarrow> Inl IndexError
      | s0 # _ \<Rightarrow>
          let sequence_length = int (length s0) in
          if k = 0 then Inl ZeroDivisionError
          else
            (case np_zeros num_samples (sequence_length div k) of
               Inl e \<Rightarrow> Inl e
             | Inr vla_smiles \<Rightarrow>
                 sample_loop body smiles (nat k) (nat (sequence_length div k))
                   [0 ..< num_samples] vla_smiles))"

definition transform_to_vla :: "string list \<Rightarrow> int \<Rightarrow> error + matrix" where
  "transform_to_vla smiles k = transform_with group_value smiles k"

subsection \<open>\<open>process_smiles_file\<close>\<close>

text \<open>\<open>max\<close> of an iterable of integers raises \<open>ValueError\<close> when the iterable is empty.\<close>

fun py_max :: "int list \<Rightarrow> error + int" where
  "py_max [] = Inl ValueError"
| "py_max (x # xs) = Inr (fold max xs x)"

text \<open>
  Lines 75 and 76, the binary encoder:
  \<^verbatim>\<open>
  max_smiles_length = max(len(smiles) for smiles in smiles_list) * 8
  binary_sequences = [smiles_to_binary(smiles, max_smiles_length) for smiles in smiles_list]
  \<close>
\<close>

definition encode :: "pystr list \<Rightarrow> error + (string list \<times> int)" where
  "encode smiles_list =
     (case py_max (map (\<lambda>smiles. int (length smiles)) smiles_list) of
        Inl e \<Rightarrow> Inl e
      | Inr m \<Rightarrow>
          let max_smiles_length = m * 8 in
          Inr (map (\<lambda>smiles. smiles_to_binary smiles max_smiles_length) smiles_list,
               max_smiles_length))"

text \<open>Line 83, \<open>sequence_length = len(binary_sequences[0])\<close>.\<close>

definition sequence_length :: "string list \<Rightarrow> error + int" where
  "sequence_length binary_sequences =
     (case binary_sequences of [] \<Rightarrow> Inl IndexError | s0 # _ \<Rightarrow> Inr (int (length s0)))"

text \<open>
  The files written are the observable output. A file is identified by its contents and,
  for \<open>vla_output_{k}.dat\<close>, by \<open>k\<close>; the text formats of the files are not modelled.
\<close>

datatype artifact = binary_output "string list" | vla_output int matrix

text \<open>
  \<^verbatim>\<open>
  for k in divisors:
      vla_smiles = transform_to_vla(binary_sequences, k)
      output_file = f'vla_output_{k}.dat'
      np.savetxt(output_file, vla_smiles, fmt='%d')
  \<close>
\<close>

fun divisor_loop :: "string list \<Rightarrow> int list \<Rightarrow> artifact list \<Rightarrow> artifact list \<times> error option" where
  "divisor_loop binary_sequences [] files = (files, None)"
| "divisor_loop binary_sequences (k # rest) files =
     (case transform_to_vla binary_sequences k of
        Inl e \<Rightarrow> (files, Some e)
      | Inr vla_smiles \<Rightarrow> divisor_loop binary_sequences rest (files @ [vla_output k vla_smiles]))"

text \<open>
  \<open>process_smiles_file\<close> from the list of lines read (\<open>file.read().splitlines()\<close>) on. It
  returns the files written and the exception that ended it, if any; only
  \<open>FileNotFoundError\<close> is caught, and none of the statements modelled raises it.
\<close>

definition process_smiles_file :: "pystr list \<Rightarrow> artifact list \<times> error option" where
  "process_smiles_file smiles_list =
     (case encode smiles_list of
        Inl e \<Rightarrow> ([], Some e)
      | Inr (binary_sequences, max_smiles_length) \<Rightarrow>
          let files = [binary_output binary_sequences] in
          (case sequence_length binary_sequences of
             Inl e \<Rightarrow> (files, Some e)
           | Inr n \<Rightarrow> divisor_loop binary_sequences (find_divisors n) files))"

subsection \<open>Specification-level notions\<close>

text \<open>
  The big-endian 8-bit expansion of a code point below 256, in the words of the
  specification: the character at position \<open>i\<close> from the left is the bit of weight
  \<open>2 ^ (7 - i)\<close>.
\<close>

definition big_endian_8bit :: "nat \<Rightarrow> string" where
  "big_endian_8bit n = map (\<lambda>i. bit_char (n div 2 ^ (7 - i) mod 2)) [0..<8]"

text \<open>
  A bit string is a string over the alphabet \<open>0\<close>, \<open>1\<close>. The value of the \<open>k\<close>-bit slice
  \<open>[j * k, (j + 1) * k)\<close> of a bit string under positional weighting, in the words of the
  specification: the sum of \<open>bits[idx] * 2 ^ (k - idx - 1)\<close> for \<open>idx\<close> in \<open>[0, k)\<close>.
\<close>

definition bit_string :: "string \<Rightarrow> bool" where
  "bit_string s = list_all (\<lambda>c. c = CHR ''0'' \<or> c = CHR ''1'') s"

definition bit_value :: "char \<Rightarrow> int" where
  "bit_value c = (if c = CHR ''1'' then 1 else 0)"

definition slice_value :: "string \<Rightarrow> nat \<Rightarrow> nat \<Rightarrow> int" where
  "slice_value s k j = (\<Sum>idx \<leftarrow> [0..<k]. bit_value (s ! (j * k + idx)) * 2 ^ (k - idx - 1))"

text \<open>
  The simplified transform of the specification, which omits the step that rewrites the
  sentinel 2 to 0 and computes \<open>r20\<close> again (lines 61 and 62): the same loops, with a body
  that stops after the \<open>continue\<close>.
\<close>

definition group_value_simplified :: "string \<Rightarrow> nat \<Rightarrow> nat \<Rightarrow> error + int option" where
  "group_value_simplified s k i =
     (case read_bits s [i * k ..< (i + 1) * k] of
        Inl e \<Rightarrow> Inl e
      | Inr bits0 \<Rightarrow>
          let bits1 = map (\<lambda>bit. if bit \<ge> 0 then bit else 2) bits0;
              r20 = positional_sum k bits1
          in if r20 = 0 then Inr None else Inr (Some r20))"

definition transform_simplified :: "string list \<Rightarrow> int \<Rightarrow> error + matrix" where
  "transform_simplified smiles k = transform_with group_value_simplified smiles k"

subsection \<open>Auxiliary notions\<close>

text \<open>
  The value that the cell \<open>(i1, i)\<close> holds after the pass of the loops for the row \<open>s\<close>
  and the group \<open>i\<close>, or the exception of that pass: the zero of \<open>np.zeros\<close> after a
  \<open>continue\<close>, and the double made from \<open>r20\<close> after the assignment.
\<close>

definition stored ::
  "(string \<Rightarrow> nat \<Rightarrow> nat \<Rightarrow> error + int option) \<Rightarrow> string \<Rightarrow> nat \<Rightarrow> nat \<Rightarrow> error + int" where
  "stored body s k i =
     (case body s k i of
        Inl e \<Rightarrow> Inl e
      | Inr None \<Rightarrow> Inr 0
      | Inr (Some r20) \<Rightarrow> float64_of_int r20)"

section \<open>Properties\<close>

subsection \<open>Divisor enumeration\<close>

lemma find_divisors_loop_filter:
  "find_divisors_loop n xs acc = acc @ filter (\<lambda>i. n mod i = 0) xs"
  by (induction xs arbitrary: acc) simp_all

lemma find_divisors_filter: "find_divisors n = filter (\<lambda>i. n mod i = 0) [1..n]"
  by (simp add: find_divisors_def find_divisors_loop_filter)

text \<open>
  C3. For every positive integer \<open>L\<close>, \<open>find_divisors L\<close> is sorted strictly ascending and
  contains \<open>k\<close> if and only if \<open>1 \<le> k \<le> L\<close> and \<open>L mod k = 0\<close>; in particular it contains
  both \<open>1\<close> and \<open>L\<close>.
\<close>

theorem find_divisors_exact:
  assumes "1 \<le> L"
  shows "sorted_wrt (<) (find_divisors L)
    \<and> (\<forall>k. k \<in> set (find_divisors L) \<longleftrightarrow> 1 \<le> k \<and> k \<le> L \<and> L mod k = 0)
    \<and> 1 \<in> set (find_divisors L) \<and> L \<in> set (find_divisors L)"
proof -
  have srt: "sorted_wrt (<) (find_divisors L)"
    unfolding find_divisors_filter by (rule sorted_wrt_filter) simp
  have mem: "k \<in> set (find_divisors L) \<longleftrightarrow> 1 \<le> k \<and> k \<le> L \<and> L mod k = 0" for k
    by (auto simp: find_divisors_filter)
  have "1 \<in> set (find_divisors L)" "L \<in> set (find_divisors L)"
    using assms by (simp_all add: mem)
  with srt mem show ?thesis by blast
qed

theorem find_divisors_exact_witness:
  "find_divisors 16 = [1, 2, 4, 8, 16]
    \<and> sorted_wrt (<) (find_divisors 16)
    \<and> (\<forall>k. k \<in> set (find_divisors 16) \<longleftrightarrow> 1 \<le> k \<and> k \<le> 16 \<and> 16 mod k = 0)
    \<and> 1 \<in> set (find_divisors 16) \<and> 16 \<in> set (find_divisors 16)"
proof -
  have h: "(1::int) \<le> 16" by simp
  have v: "find_divisors 16 = [1, 2, 4, 8, 16]"
    by code_simp
  from v find_divisors_exact [OF h] show ?thesis by blast
qed

subsection \<open>The binary encoder\<close>

lemma bit_length_le_iff: "bit_length n \<le> w \<longleftrightarrow> n < 2 ^ w"
proof (induction n arbitrary: w rule: bit_length.induct)
  case (1 n)
  show ?case
  proof (cases "n = 0")
    case True
    then show ?thesis by (simp add: bit_length.simps)
  next
    case False
    show ?thesis
    proof (cases w)
      case 0
      with False show ?thesis by (simp add: bit_length.simps)
    next
      case (Suc w')
      have "bit_length n \<le> w \<longleftrightarrow> bit_length (n div 2) \<le> w'"
        using False Suc by (subst bit_length.simps) simp
      also have "\<dots> \<longleftrightarrow> n div 2 < 2 ^ w'"
        using "1.IH" [OF False] .
      also have "\<dots> \<longleftrightarrow> n < 2 ^ w"
        using Suc by auto
      finally show ?thesis .
    qed
  qed
qed

lemma length_format_b: "length (format_b n) = (if n = 0 then 1 else bit_length n)"
proof (induction n rule: format_b.induct)
  case (1 n)
  show ?case
  proof (cases "n < 2")
    case True
    then have "n = 0 \<or> n = 1" by auto
    then show ?thesis
      by (auto simp: format_b.simps [of 0] format_b.simps [of 1] format_b.simps [of "Suc 0"] bit_length.simps [of 1]  bit_length.simps [of "Suc 0"] bit_length.simps [of 0])
  next
    case False
    then have "n div 2 \<noteq> 0" by auto
    with False "1.IH" show ?thesis
      by (subst format_b.simps, subst bit_length.simps) simp
  qed
qed

lemma length_format_08b: "length (format_08b n) = max 8 (bit_length n)"
  by (auto simp: format_08b_def Let_def length_format_b bit_length.simps [of 0])

lemma length_format_08b_small: "n < 256 \<Longrightarrow> length (format_08b n) = 8"
  using bit_length_le_iff [of n 8] by (simp add: length_format_08b)

lemma length_format_08b_large: "255 < n \<Longrightarrow> 8 < length (format_08b n)"
  using bit_length_le_iff [of n 8] by (simp add: length_format_08b)



lemma bit_char_small: "n < 2 \<Longrightarrow> bit_char (n mod 2) = bit_char n"
  by simp

lemma format_b_pad:
  "0 < w \<Longrightarrow> n < 2 ^ w \<Longrightarrow>
   replicate (w - length (format_b n)) CHR ''0'' @ format_b n
     = map (\<lambda>i. bit_char (n div 2 ^ (w - 1 - i) mod 2)) [0..<w]"
proof (induction w arbitrary: n)
  case 0
  then show ?case by simp
next
  case (Suc w)
  show ?case
  proof (cases "n < 2")
    case True
    have fb: "format_b n = [bit_char n]"
      using True by (subst format_b.simps) simp
    have "map (\<lambda>i. bit_char (n div 2 ^ (w - i) mod 2)) [0..<w] = replicate w CHR ''0''"
    proof -
      have "n div 2 ^ (w - i) = 0" if "i < w" for i
      proof -
        have "(2::nat) ^ 1 \<le> 2 ^ (w - i)"
          using that by (intro power_increasing) simp_all
        with True show ?thesis by simp
      qed
      then have "map (\<lambda>i. bit_char (n div 2 ^ (w - i) mod 2)) [0..<w]
                 = map (\<lambda>i. CHR ''0'') [0..<w]"
        by (intro map_cong) (simp_all add: bit_char_def)
      then show ?thesis by (simp add: map_replicate_const)
    qed
    with True fb show ?thesis by (simp add: bit_char_small)
  next
    case False
    have fb: "format_b n = format_b (n div 2) @ [bit_char (n mod 2)]"
      using False by (subst format_b.simps) simp
    have w: "0 < w"
    proof (rule ccontr)
      assume "\<not> 0 < w"
      with Suc.prems False show False by simp
    qed
    have small: "n div 2 < 2 ^ w"
      using Suc.prems by simp
    have shift: "n div 2 div 2 ^ (w - Suc i) = n div 2 ^ (w - i)" if "i < w" for i
    proof -
      have "w - i = Suc (w - Suc i)"
        using that by simp
      then have "(2::nat) ^ (w - i) = 2 * 2 ^ (w - Suc i)"
        by simp
      then show ?thesis by (simp add: div_mult2_eq)
    qed
    have "replicate (Suc w - length (format_b n)) CHR ''0'' @ format_b n
          = (replicate (w - length (format_b (n div 2))) CHR ''0'' @ format_b (n div 2))
              @ [bit_char (n mod 2)]"
      by (simp add: fb)
    also have "\<dots> = map (\<lambda>i. bit_char (n div 2 div 2 ^ (w - 1 - i) mod 2)) [0..<w]
                      @ [bit_char (n mod 2)]"
      using Suc.IH [OF w small] by simp
    also have "map (\<lambda>i. bit_char (n div 2 div 2 ^ (w - 1 - i) mod 2)) [0..<w]
               = map (\<lambda>i. bit_char (n div 2 ^ (w - i) mod 2)) [0..<w]"
      by (intro map_cong) (simp_all add: shift)
    finally show ?thesis by simp
  qed
qed

lemma format_08b_big_endian: "n < 256 \<Longrightarrow> format_08b n = big_endian_8bit n"
  using format_b_pad [of 8 n] by (simp add: format_08b_def big_endian_8bit_def)

lemma length_concat_big_endian: "length (concat (map big_endian_8bit s)) = 8 * length s"
  by (induction s) (simp_all add: big_endian_8bit_def)

lemma concat_format_small:
  "\<forall>c \<in> set s. c < 256 \<Longrightarrow> concat (map format_08b s) = concat (map big_endian_8bit s)"
  by (induction s) (simp_all add: format_08b_big_endian)

lemma length_concat_small:
  "\<forall>c \<in> set s. c < 256 \<Longrightarrow> length (concat (map format_08b s)) = 8 * length s"
  by (induction s) (simp_all add: length_format_08b_small)

lemma length_concat_ge: "8 * length s \<le> length (concat (map format_08b s))"
  by (induction s) (simp_all add: length_format_08b)

lemma length_concat_large:
  "c \<in> set s \<Longrightarrow> 255 < c \<Longrightarrow> 8 * length s < length (concat (map format_08b s))"
proof (induction s)
  case Nil
  then show ?case by simp
next
  case (Cons a s)
  show ?case
  proof (cases "255 < a")
    case True
    with length_format_08b_large [of a] length_concat_ge [of s] show ?thesis by simp
  next
    case False
    with Cons.prems have "c \<in> set s" by auto
    with Cons have "8 * length s < length (concat (map format_08b s))" by simp
    moreover have "8 \<le> length (format_08b a)" by (simp add: length_format_08b)
    ultimately show ?thesis by simp
  qed
qed

lemma py_max_Max: "xs \<noteq> [] \<Longrightarrow> py_max xs = Inr (Max (set xs))"
  by (cases xs) (simp_all add: Max.set_eq_fold [symmetric])

lemma Max_int_length:
  assumes "smiles_list \<noteq> []"
  shows "(MAX smiles\<in>set smiles_list. int (length smiles))
         = int (Max (length ` set smiles_list))"
proof -
  have "int (Max (length ` set smiles_list)) = Max (int ` length ` set smiles_list)"
    using assms by (intro mono_Max_commute) (auto simp: mono_def)
  then show ?thesis by (simp add: image_image)
qed

lemma encode_nonempty:
  assumes "smiles_list \<noteq> []"
  shows "encode smiles_list =
         Inr (map (\<lambda>smiles. smiles_to_binary smiles (8 * int (Max (length ` set smiles_list))))
                smiles_list,
              8 * int (Max (length ` set smiles_list)))"
  using assms by (simp add: encode_def py_max_Max Max_int_length Let_def mult.commute)

lemma smiles_to_binary_small:
  assumes "\<forall>c \<in> set s. c < 256" and "length s \<le> m"
  shows "smiles_to_binary s (8 * int m)
         = concat (map big_endian_8bit s) @ replicate (8 * m - 8 * length s) CHR ''0''"
proof -
  have "nat (8 * int m - int (8 * length s)) = 8 * m - 8 * length s"
    by simp
  with assms(1) show ?thesis
    by (simp add: smiles_to_binary_def Let_def length_concat_big_endian concat_format_small
        del: of_nat_mult)
qed

text \<open>
  C2. For every non-empty batch of raw strings whose characters all have code points in
  0 to 255, the encoder returns, for each raw string, an encoded string of length exactly
  \<open>L = 8 * (maximum character length over the batch)\<close>, whose first \<open>8 * len(raw)\<close>
  characters are the big-endian 8-bit expansions of the raw string's code points and
  whose remaining \<open>L - 8 * len(raw)\<close> characters are all \<open>0\<close>.
\<close>

theorem encode_length_and_content:
  assumes "smiles_list \<noteq> []"
    and "\<forall>s \<in> set smiles_list. \<forall>c \<in> set s. c < 256"
  shows "\<exists>encoded.
    encode smiles_list = Inr (encoded, int (8 * Max (length ` set smiles_list)))
    \<and> length encoded = length smiles_list
    \<and> (\<forall>i < length smiles_list.
         length (encoded ! i) = 8 * Max (length ` set smiles_list)
         \<and> take (8 * length (smiles_list ! i)) (encoded ! i)
             = concat (map big_endian_8bit (smiles_list ! i))
         \<and> drop (8 * length (smiles_list ! i)) (encoded ! i)
             = replicate (8 * Max (length ` set smiles_list) - 8 * length (smiles_list ! i))
                 CHR ''0'')"
proof -
  define m where "m = Max (length ` set smiles_list)"
  define encoded where
    "encoded = map (\<lambda>smiles. smiles_to_binary smiles (8 * int m)) smiles_list"
  have enc: "encode smiles_list = Inr (encoded, int (8 * m))"
    using encode_nonempty [OF assms(1)] by (simp add: encoded_def m_def)
  have row: "length (encoded ! i) = 8 * m
      \<and> take (8 * length (smiles_list ! i)) (encoded ! i)
          = concat (map big_endian_8bit (smiles_list ! i))
      \<and> drop (8 * length (smiles_list ! i)) (encoded ! i)
          = replicate (8 * m - 8 * length (smiles_list ! i)) CHR ''0''"
    if i: "i < length smiles_list" for i
  proof -
    let ?s = "smiles_list ! i"
    have mem: "?s \<in> set smiles_list" using i by simp
    then have le: "length ?s \<le> m"
      unfolding m_def by (intro Max_ge) auto
    have small: "\<forall>c \<in> set ?s. c < 256" using assms(2) mem by blast
    have len: "length (concat (map big_endian_8bit ?s)) = 8 * length ?s"
      using length_concat_small [OF small] concat_format_small [OF small] by simp
    have "encoded ! i = concat (map big_endian_8bit ?s) @ replicate (8 * m - 8 * length ?s) CHR ''0''"
      using i smiles_to_binary_small [OF small le] by (simp add: encoded_def)
    with len le show ?thesis by simp
  qed
  from enc row show ?thesis
    unfolding m_def [symmetric] by (intro exI [of _ encoded]) (simp add: encoded_def)
qed

theorem encode_length_and_content_witness:
  "\<exists>encoded. encode [[65], [65, 66]] = Inr (encoded, 16) \<and> length encoded = 2
     \<and> length (encoded ! 0) = 16
     \<and> take 8 (encoded ! 0) = ''01000001'' \<and> drop 8 (encoded ! 0) = ''00000000''
     \<and> length (encoded ! 1) = 16
     \<and> take 16 (encoded ! 1) = ''0100000101000010'' \<and> drop 16 (encoded ! 1) = []"
proof -
  have ne: "[[65], [65, 66::nat]] \<noteq> []" by simp
  have small: "\<forall>s \<in> set [[65], [65, 66::nat]]. \<forall>c \<in> set s. c < 256" by simp
  have M: "Max (length ` set [[65], [65, 66::nat]]) = 2" by simp
  have b: "big_endian_8bit 65 = ''01000001''" "big_endian_8bit 66 = ''01000010''"
    by (simp_all add: big_endian_8bit_def bit_char_def upt_rec)
  have r: "replicate 8 CHR ''0'' = ''00000000''"
    by (simp add: numeral_eq_Suc)
  show ?thesis
    using encode_length_and_content [OF ne small] unfolding M
    by (auto simp: b r All_less_Suc)
qed

lemma format_08b_256: "format_08b 256 = ''100000000''"
  by (simp add: format_08b_def format_b.simps bit_char_def)

text \<open>
  C6 as stated (a raw string with a character of code point above 255 makes the encoder
  fail) does not hold: no statement of the encoder checks the range of a code point. The
  batch of the single one-character string with code point 256 is encoded without error,
  to a string of 9 characters.
\<close>

theorem encode_wide_character_counterexample:
  "encode [[256]] = Inr ([''100000000''], 8)"
  by (simp add: encode_def smiles_to_binary_def format_08b_256)

lemma format_08b_wide:
  assumes "255 < c"
  shows "8 < bit_length c \<and> 2 ^ (bit_length c - 1) \<le> c \<and> c < 2 ^ bit_length c
    \<and> format_08b c = map (\<lambda>i. bit_char (c div 2 ^ (bit_length c - 1 - i) mod 2)) [0..<bit_length c]"
proof -
  define w where "w = bit_length c"
  have w8: "8 < w"
    using assms bit_length_le_iff [of c 8] by (simp add: w_def)
  have up: "c < 2 ^ w"
    using bit_length_le_iff [of c w] by (simp add: w_def)
  have "\<not> bit_length c \<le> w - 1"
    using w8 by (simp add: w_def)
  then have low: "2 ^ (w - 1) \<le> c"
    by (simp add: bit_length_le_iff)
  have len: "length (format_b c) = w"
    using assms by (simp add: length_format_b w_def)
  from w8 have "0 < w" by simp
  from format_b_pad [OF this up] len
  have "format_b c = map (\<lambda>i. bit_char (c div 2 ^ (w - 1 - i) mod 2)) [0..<w]"
    by simp
  moreover have "format_08b c = format_b c"
    using len w8 by (simp add: format_08b_def)
  ultimately show ?thesis
    using w8 low up by (simp add: w_def)
qed

text \<open>
  C6, amended. For every raw string of a batch that contains some character whose code
  point is above 255, the encoder does not fail. It returns \<open>L = 8 * (maximum length)\<close>
  and, for every raw string, the concatenation of the expansions of its characters
  followed by \<open>L - (length of that concatenation)\<close> characters \<open>0\<close>, none when the
  difference is negative. The expansion of a character of code point \<open>c\<close> above 255 is the
  sequence of the binary digits of \<open>c\<close>, most significant first and without truncation:
  \<open>w\<close> characters with \<open>8 < w\<close> and \<open>2 ^ (w - 1) \<le> c < 2 ^ w\<close>, the character at position
  \<open>i\<close> being the bit of weight \<open>2 ^ (w - 1 - i)\<close>; the expansion of a code point below
  256 is its big-endian 8-bit expansion. So the encoded string of such a raw string has
  more than \<open>8 * len(raw)\<close> characters.
\<close>

theorem encode_wide_character:
  assumes "s \<in> set smiles_list" and "c \<in> set s" and "255 < c"
  shows "\<exists>encoded m w. encode smiles_list = Inr (encoded, m)
           \<and> m = 8 * int (Max (length ` set smiles_list))
           \<and> length encoded = length smiles_list
           \<and> (\<forall>i < length smiles_list.
                 encoded ! i
                   = concat (map format_08b (smiles_list ! i))
                     @ replicate (nat (m - int (length (concat (map format_08b (smiles_list ! i))))))
                         CHR ''0''
                 \<and> (smiles_list ! i = s \<longrightarrow> 8 * length s < length (encoded ! i)))
           \<and> 8 < w \<and> 2 ^ (w - 1) \<le> c \<and> c < 2 ^ w
           \<and> format_08b c = map (\<lambda>i. bit_char (c div 2 ^ (w - 1 - i) mod 2)) [0..<w]
           \<and> (\<forall>n < 256. format_08b n = big_endian_8bit n)"
proof -
  from assms(1) have ne: "smiles_list \<noteq> []" by auto
  define m where "m = 8 * int (Max (length ` set smiles_list))"
  define encoded where "encoded = map (\<lambda>smiles. smiles_to_binary smiles m) smiles_list"
  have enc: "encode smiles_list = Inr (encoded, m)"
    using encode_nonempty [OF ne] by (simp add: encoded_def m_def)
  have long: "8 * length s < length (smiles_to_binary s m)"
    using length_concat_large [OF assms(2,3)] by (simp add: smiles_to_binary_def Let_def)
  have rows: "\<forall>i < length smiles_list.
      encoded ! i
        = concat (map format_08b (smiles_list ! i))
          @ replicate (nat (m - int (length (concat (map format_08b (smiles_list ! i))))))
              CHR ''0''
      \<and> (smiles_list ! i = s \<longrightarrow> 8 * length s < length (encoded ! i))"
    using long by (simp add: encoded_def smiles_to_binary_def Let_def)
  from enc rows format_08b_wide [OF assms(3)] show ?thesis
    unfolding m_def [symmetric]
    by (intro exI [of _ encoded] exI [of _ m] exI [of _ "bit_length c"])
      (simp add: encoded_def format_08b_big_endian)
qed

theorem encode_wide_character_witness:
  "\<exists>encoded. encode [[67], [256]] = Inr (encoded, 8) \<and> length encoded = 2
     \<and> encoded ! 0 = ''01000011'' \<and> encoded ! 1 = ''100000000''
     \<and> format_08b 256 = ''100000000''"
proof -
  have h: "[256] \<in> set [[67], [256::nat]]" "256 \<in> set [256::nat]" "255 < (256::nat)"
    by simp_all
  have M: "Max (length ` set [[67], [256::nat]]) = 1" by simp
  have f: "format_08b 67 = ''01000011''"
    by (simp add: format_08b_def format_b.simps bit_char_def)
  from encode_wide_character [OF h] show ?thesis
    unfolding M by (auto simp: All_less_Suc format_08b_256 f)
qed

text \<open>
  C7. For the empty batch of raw strings the encoder fails, and no output is produced: no
  encoded batch and no matrix is written. The exception is the \<open>ValueError\<close> that \<open>max\<close>
  raises on an empty sequence, the condition that the specification calls
  \<open>EmptyBatchError\<close>; it is raised before the first file is opened for writing, and
  \<open>process_smiles_file\<close> does not catch it.
\<close>

theorem process_empty_batch:
  "encode [] = Inl ValueError \<and> process_smiles_file [] = ([], Some ValueError)"
  by (simp add: encode_def process_smiles_file_def)

lemma find_divisors_nonpositive: "n \<le> 0 \<Longrightarrow> find_divisors n = []"
  by (simp add: find_divisors_def)

text \<open>
  C8 as stated does not hold. The batch of one empty raw string (an empty line of the
  input file) is not empty, and the length handed to \<open>find_divisors\<close> is 0, not at least
  8; and \<open>find_divisors 0\<close> does not fail, it returns the empty list.
\<close>

theorem handed_length_counterexample:
  "encode [[]] = Inr ([[]], 0) \<and> sequence_length [[]] = Inr 0 \<and> find_divisors 0 = []"
  by (simp add: encode_def smiles_to_binary_def sequence_length_def find_divisors_def)

lemma length_smiles_to_binary:
  "length (smiles_to_binary s m) = max (length (concat (map format_08b s))) (nat m)"
  by (simp add: smiles_to_binary_def Let_def)

text \<open>
  C8, amended. For every non-empty raw batch the encoder succeeds, and the length handed
  to \<open>find_divisors\<close> is at least 8 when the batch contains a non-empty string, and 0
  when all its strings are empty. \<open>find_divisors\<close> never fails: for every \<open>L \<le> 0\<close> it
  returns the empty list.
\<close>

theorem handed_length:
  "(smiles_list \<noteq> [] \<longrightarrow>
      (\<exists>encoded m L. encode smiles_list = Inr (encoded, m) \<and> sequence_length encoded = Inr L
         \<and> (if \<exists>s \<in> set smiles_list. s \<noteq> [] then 8 \<le> L else L = 0)))
   \<and> (\<forall>n \<le> 0. find_divisors n = [])"
proof (intro conjI impI allI)
  assume ne: "smiles_list \<noteq> []"
  then obtain s0 rest where sl: "smiles_list = s0 # rest"
    by (cases smiles_list) auto
  define M where "M = Max (length ` set smiles_list)"
  define encoded where
    "encoded = map (\<lambda>smiles. smiles_to_binary smiles (8 * int M)) smiles_list"
  define L where "L = int (length (smiles_to_binary s0 (8 * int M)))"
  have enc: "encode smiles_list = Inr (encoded, 8 * int M)"
    using encode_nonempty [OF ne] by (simp add: encoded_def M_def)
  have sq: "sequence_length encoded = Inr L"
    by (simp add: sequence_length_def encoded_def sl L_def)
  have "8 \<le> L" if "\<exists>s \<in> set smiles_list. s \<noteq> []"
  proof -
    from that obtain s where s: "s \<in> set smiles_list" "s \<noteq> []" by blast
    then have "length s \<le> M"
      unfolding M_def by (intro Max_ge) auto
    with s(2) have "1 \<le> M" by (cases s) auto
    then show ?thesis
      by (simp add: L_def length_smiles_to_binary)
  qed
  moreover have "L = 0" if "\<not> (\<exists>s \<in> set smiles_list. s \<noteq> [])"
  proof -
    from that have all: "\<forall>s \<in> set smiles_list. s = []" by blast
    then have "length ` set smiles_list = {0}"
      using ne by (auto simp: image_iff) (metis last_in_set list.size(3))
    then have "M = 0" by (simp add: M_def)
    moreover from all sl have "s0 = []" by simp
    ultimately show ?thesis
      by (simp add: L_def length_smiles_to_binary)
  qed
  ultimately show "\<exists>encoded m L. encode smiles_list = Inr (encoded, m)
      \<and> sequence_length encoded = Inr L
      \<and> (if \<exists>s \<in> set smiles_list. s \<noteq> [] then 8 \<le> L else L = 0)"
    using enc sq by auto
next
  fix n :: int
  assume "n \<le> 0"
  then show "find_divisors n = []" by (rule find_divisors_nonpositive)
qed

theorem handed_length_witness:
  "(\<exists>encoded m L. encode [[65], [65, 66]] = Inr (encoded, m) \<and> sequence_length encoded = Inr L
      \<and> 8 \<le> L)
   \<and> find_divisors (- 3) = []"
proof -
  have ne: "[[65], [65, 66::nat]] \<noteq> []" by simp
  have some: "\<exists>s \<in> set [[65], [65, 66::nat]]. s \<noteq> []" by simp
  have neg: "(- 3 :: int) \<le> 0" by simp
  from handed_length [of "[[65], [65, 66]]"] ne some neg show ?thesis
    by (simp only: if_True) blast
qed

subsection \<open>Conversion to double precision\<close>

lemma round53_exact: "r < 2 ^ 53 \<Longrightarrow> round53 r = r"
  using bit_length_le_iff [of r 53] by (simp add: round53_def)

lemma round53_le:
  assumes "r < 2 ^ w"
  shows "round53 r \<le> 2 ^ w"
proof (cases "bit_length r \<le> 53")
  case True
  with assms show ?thesis by (simp add: round53_def)
next
  case False
  define n where "n = bit_length r"
  define shift where "shift = n - 53"
  define q where "q = r div 2 ^ shift"
  have n53: "53 < n" using False by (simp add: n_def)
  have nw: "n \<le> w"
    using assms by (simp add: n_def bit_length_le_iff)
  have "n = 53 + shift"
    using n53 by (simp add: shift_def)
  then have pw: "(2::nat) ^ n = 2 ^ 53 * 2 ^ shift"
    by (simp only: power_add)
  have "r < 2 ^ n"
    using bit_length_le_iff [of r n] by (simp add: n_def)
  also note pw
  finally have "q < 2 ^ 53"
    by (simp add: q_def less_mult_imp_div_less)
  then have "(q + 1) * 2 ^ shift \<le> 2 ^ 53 * 2 ^ shift"
    by (intro mult_right_mono) simp_all
  also have "\<dots> = 2 ^ n"
    by (simp only: pw)
  also have "\<dots> \<le> 2 ^ w"
    using nw by (intro power_increasing) simp_all
  finally have up: "(q + 1) * 2 ^ shift \<le> 2 ^ w" .
  have "q * 2 ^ shift \<le> (q + 1) * 2 ^ shift"
    by simp
  with up have down: "q * 2 ^ shift \<le> 2 ^ w" by linarith
  from False up down show ?thesis
    by (simp add: round53_def Let_def n_def [symmetric] shift_def [symmetric] q_def [symmetric])
qed

lemma float64_of_int_exact: "0 \<le> r \<Longrightarrow> r < 2 ^ 53 \<Longrightarrow> float64_of_int r = Inr r"
proof -
  assume r: "0 \<le> r" "r < 2 ^ 53"
  then have "nat r < 2 ^ 53"
    by (simp add: nat_less_iff)
  then have "round53 (nat r) = nat r" "nat r < 2 ^ 1024"
    by (simp_all add: round53_exact)
  with r(1) show ?thesis
    by (cases "r = 0") (simp_all add: float64_of_int_def Let_def)
qed

lemma float64_of_int_bounded:
  assumes "0 \<le> r" and "r < 2 ^ k" and "k \<le> 1023"
  shows "\<exists>v. float64_of_int r = Inr v \<and> 0 \<le> v \<and> v \<le> 2 ^ k"
proof -
  have "nat r < 2 ^ k"
    using assms(1,2) by (simp add: nat_less_iff)
  then have le: "round53 (nat r) \<le> 2 ^ k"
    by (rule round53_le)
  also have "(2::nat) ^ k \<le> 2 ^ 1023"
    using assms(3) by (intro power_increasing) simp_all
  finally have "round53 (nat r) < 2 ^ 1024"
    by simp
  moreover have "sgn r * int (round53 (nat r)) \<le> 2 ^ k"
  proof -
    have "sgn r * int (round53 (nat r)) \<le> int (round53 (nat r))"
      using assms(1) by (cases "r = 0") simp_all
    also have "\<dots> \<le> int (2 ^ k)"
      using le by (simp only: of_nat_le_iff)
    finally show ?thesis by simp
  qed
  moreover have "0 \<le> sgn r * int (round53 (nat r))"
    using assms(1) by (cases "r = 0") simp_all
  ultimately show ?thesis
    using assms(1) by (simp add: float64_of_int_def Let_def)
qed

subsection \<open>The value of a group of bits\<close>

lemma bit_stringD: "bit_string s \<Longrightarrow> j < length s \<Longrightarrow> s ! j = CHR ''0'' \<or> s ! j = CHR ''1''"
  by (simp add: bit_string_def list_all_length)

lemma py_int_bit: "c = CHR ''0'' \<or> c = CHR ''1'' \<Longrightarrow> py_int c = Inr (bit_value c)"
  by (auto simp: py_int_def bit_value_def)

lemma read_bits_bit_string:
  assumes "bit_string s"
  shows "\<forall>j \<in> set js. j < length s \<Longrightarrow> read_bits s js = Inr (map (\<lambda>j. bit_value (s ! j)) js)"
proof (induction js)
  case Nil
  show ?case by simp
next
  case (Cons j js)
  then have j: "j < length s" by simp
  from Cons have "read_bits s js = Inr (map (\<lambda>j. bit_value (s ! j)) js)" by simp
  with j py_int_bit [OF bit_stringD [OF assms j]] show ?case by simp
qed

lemma positional_sum_nth:
  "positional_sum k bits = (\<Sum>idx \<leftarrow> [0..<length bits]. bits ! idx * 2 ^ (k - idx - 1))"
proof -
  have "map (\<lambda>(idx, bit). bit * 2 ^ (k - idx - 1)) (zip [0..<length bits] bits)
        = map (\<lambda>idx. bits ! idx * 2 ^ (k - idx - 1)) [0..<length bits]"
    by (rule nth_equalityI) simp_all
  then show ?thesis
    by (simp add: positional_sum_def enumerate_eq_zip)
qed

lemma positional_sum_slice:
  "positional_sum k (map (\<lambda>j. bit_value (s ! j)) [i * k ..< (i + 1) * k]) = slice_value s k i"
proof -
  have "map (\<lambda>idx. map (\<lambda>j. bit_value (s ! j)) [i * k ..< (i + 1) * k] ! idx * 2 ^ (k - idx - 1))
          [0..<k]
        = map (\<lambda>idx. bit_value (s ! (i * k + idx)) * 2 ^ (k - idx - 1)) [0..<k]"
    by (rule map_cong) simp_all
  moreover have "length (map (\<lambda>j. bit_value (s ! j)) [i * k ..< (i + 1) * k]) = k"
    by simp
  ultimately show ?thesis
    unfolding positional_sum_nth slice_value_def by (simp only:)
qed

text \<open>A positional sum of \<open>k\<close> digits, each 0 or 1, is a number of \<open>k\<close> bits.\<close>

lemma weighted_sum_Suc:
  fixes f :: "nat \<Rightarrow> int"
  shows "(\<Sum>idx \<leftarrow> [0..<Suc k]. f idx * 2 ^ (Suc k - idx - 1))
         = 2 * (\<Sum>idx \<leftarrow> [0..<k]. f idx * 2 ^ (k - idx - 1)) + f k"
proof -
  let ?g = "\<lambda>idx. f idx * 2 ^ (Suc k - idx - 1)"
  have m: "map ?g [0..<k] = map (\<lambda>idx. 2 * (f idx * 2 ^ (k - idx - 1))) [0..<k]"
  proof (rule map_cong)
    fix idx assume "idx \<in> set [0..<k]"
    then have "k - idx = Suc (k - idx - 1)" by simp
    then have "(2::int) ^ (k - idx) = 2 * 2 ^ (k - idx - 1)"
      by (metis power_Suc)
    then show "f idx * 2 ^ (Suc k - idx - 1) = 2 * (f idx * 2 ^ (k - idx - 1))"
      by simp
  qed simp
  have "sum_list (map ?g [0..<Suc k]) = sum_list (map ?g [0..<k]) + ?g k"
    by simp
  also have "sum_list (map ?g [0..<k]) = 2 * (\<Sum>idx \<leftarrow> [0..<k]. f idx * 2 ^ (k - idx - 1))"
    unfolding m by (rule sum_list_const_mult)
  also have "?g k = f k"
    by simp
  finally show ?thesis .
qed

lemma weighted_sum_bounds:
  fixes f :: "nat \<Rightarrow> int"
  assumes "\<forall>idx < k. 0 \<le> f idx \<and> f idx \<le> 1"
  shows "0 \<le> (\<Sum>idx \<leftarrow> [0..<k]. f idx * 2 ^ (k - idx - 1))
         \<and> (\<Sum>idx \<leftarrow> [0..<k]. f idx * 2 ^ (k - idx - 1)) < 2 ^ k"
  using assms
proof (induction k)
  case 0
  show ?case by simp
next
  case (Suc k)
  then have IH: "0 \<le> (\<Sum>idx \<leftarrow> [0..<k]. f idx * 2 ^ (k - idx - 1))"
    "(\<Sum>idx \<leftarrow> [0..<k]. f idx * 2 ^ (k - idx - 1)) < 2 ^ k"
    by simp_all
  from Suc.prems have "0 \<le> f k" "f k \<le> 1" by simp_all
  with IH show ?case
    unfolding weighted_sum_Suc by simp
qed

lemma weighted_sum_ones:
  "(\<Sum>idx \<leftarrow> [0..<k]. (1::int) * 2 ^ (k - idx - 1)) = 2 ^ k - 1"
proof (induction k)
  case 0
  show ?case by simp
next
  case (Suc k)
  show ?case
    unfolding weighted_sum_Suc [of "\<lambda>_. 1" k] Suc.IH by simp
qed

lemma bit_value_range: "0 \<le> bit_value c \<and> bit_value c \<le> 1"
  by (simp add: bit_value_def)

lemma slice_value_bounds: "0 \<le> slice_value s k j \<and> slice_value s k j < 2 ^ k"
  unfolding slice_value_def by (rule weighted_sum_bounds) (simp add: bit_value_range)

lemma slice_value_zeros:
  assumes "\<forall>idx < k. s ! (j * k + idx) = CHR ''0''"
  shows "slice_value s k j = 0"
proof -
  have m: "map (\<lambda>idx. bit_value (s ! (j * k + idx)) * 2 ^ (k - idx - 1)) [0..<k]
        = map (\<lambda>idx. 0) [0..<k]"
    using assms by (intro map_cong) (simp_all add: bit_value_def)
  show ?thesis
    unfolding slice_value_def m by simp
qed

lemma slice_value_ones:
  assumes "\<forall>idx < k. s ! (j * k + idx) = CHR ''1''"
  shows "slice_value s k j = 2 ^ k - 1"
proof -
  have m: "map (\<lambda>idx. bit_value (s ! (j * k + idx)) * 2 ^ (k - idx - 1)) [0..<k]
        = map (\<lambda>idx. 1 * 2 ^ (k - idx - 1)) [0..<k]"
    using assms by (intro map_cong) (simp_all add: bit_value_def)
  show ?thesis
    unfolding slice_value_def m by (rule weighted_sum_ones)
qed

lemma sentinel_maps_id:
  assumes "\<forall>b \<in> set bits. 0 \<le> b \<and> b \<le> (1::int)"
  shows "map (\<lambda>bit. if bit \<ge> 0 then bit else 2) bits = bits"
    and "map (\<lambda>bit. if bit = 2 then 0 else bit) bits = bits"
  using assms by (auto intro!: map_idI)

lemma group_value_bit_string:
  assumes "bit_string s" and "(i + 1) * k \<le> length s"
  shows "group_value s k i
         = Inr (if slice_value s k i = 0 then None else Some (slice_value s k i))"
proof -
  define bits0 where "bits0 = map (\<lambda>j. bit_value (s ! j)) [i * k ..< (i + 1) * k]"
  have "\<forall>j \<in> set [i * k ..< (i + 1) * k]. j < length s"
    using assms(2) by auto
  from read_bits_bit_string [OF assms(1) this]
  have rb: "read_bits s [i * k ..< (i + 1) * k] = Inr bits0"
    by (simp only: bits0_def)
  have "\<forall>b \<in> set bits0. 0 \<le> b \<and> b \<le> 1"
    by (auto simp: bits0_def bit_value_def)
  note ident = sentinel_maps_id [OF this]
  have ps: "positional_sum k bits0 = slice_value s k i"
    unfolding bits0_def by (rule positional_sum_slice)
  show ?thesis
    unfolding group_value_def rb by (simp add: Let_def ident ps)
qed

lemma stored_group_value:
  assumes "bit_string s" and "(i + 1) * k \<le> length s"
  shows "stored group_value s k i = float64_of_int (slice_value s k i)"
proof -
  have "float64_of_int 0 = Inr 0"
    by (simp add: float64_of_int_exact)
  then show ?thesis
    by (simp add: stored_def group_value_bit_string [OF assms])
qed

subsection \<open>The two loops\<close>

lemma group_loop_fill:
  assumes cells: "\<forall>i < cols. stored body (smiles ! i1) k i = Inr (c i)"
  shows "a \<le> cols \<Longrightarrow> i1 < length vla
    \<Longrightarrow> vla ! i1 = map c [0..<a] @ replicate (cols - a) 0
    \<Longrightarrow> group_loop body smiles k i1 [a..<cols] vla = Inr (vla[i1 := map c [0..<cols]])"
proof (induction "cols - a" arbitrary: a vla)
  case 0
  then have "a = cols" by simp
  with 0 have "vla ! i1 = map c [0..<cols]" by simp
  then have "vla[i1 := map c [0..<cols]] = vla"
    by (metis list_update_id)
  with \<open>a = cols\<close> show ?case by simp
next
  case (Suc n)
  then have a: "a < cols" by simp
  then have range: "[a..<cols] = a # [Suc a..<cols]"
    by (rule upt_conv_Cons)
  have pad: "replicate (cols - a) (0::int) = 0 # replicate (cols - Suc a) 0"
    using a by (simp add: Suc_diff_Suc flip: replicate_Suc)
  from cells a have st: "stored body (smiles ! i1) k a = Inr (c a)" by simp
  have n: "n = cols - Suc a" using Suc.hyps(2) by simp
  show ?case
  proof (cases "body (smiles ! i1) k a")
    case (Inl e)
    with st show ?thesis by (simp add: stored_def)
  next
    case (Inr r)
    show ?thesis
    proof (cases r)
      case None
      with Inr st have "c a = 0" by (simp add: stored_def)
      with Suc.prems(3) pad have row: "vla ! i1 = map c [0..<Suc a] @ replicate (cols - Suc a) 0"
        by simp
      from a have "Suc a \<le> cols" by simp
      from Suc.hyps(1) [OF n this Suc.prems(2) row] Inr None show ?thesis
        by (simp add: range)
    next
      case (Some r20)
      with Inr st have fl: "float64_of_int r20 = Inr (c a)" by (simp add: stored_def)
      define vla' where "vla' = vla[i1 := (vla ! i1)[a := c a]]"
      have len: "i1 < length vla'" using Suc.prems(2) by (simp add: vla'_def)
      have "(vla ! i1)[a := c a] = map c [0..<a] @ (c a # replicate (cols - Suc a) 0)"
        unfolding Suc.prems(3) pad by (simp add: list_update_append)
      then have row: "vla' ! i1 = map c [0..<Suc a] @ replicate (cols - Suc a) 0"
        using Suc.prems(2) by (simp add: vla'_def)
      from a have "Suc a \<le> cols" by simp
      from Suc.hyps(1) [OF n this len row]
      have "group_loop body smiles k i1 [Suc a..<cols] vla' = Inr (vla[i1 := map c [0..<cols]])"
        by (simp add: vla'_def)
      with Inr Some fl show ?thesis
        by (simp add: range setitem_def vla'_def)
    qed
  qed
qed

lemma sample_loop_fill:
  assumes cells: "\<forall>i1 < N. \<forall>i < cols. stored body (smiles ! i1) k i = Inr (c i1 i)"
  shows "b \<le> N
    \<Longrightarrow> vla = map (\<lambda>i1. map (c i1) [0..<cols]) [0..<b] @ replicate (N - b) (replicate cols 0)
    \<Longrightarrow> sample_loop body smiles k cols [b..<N] vla
        = Inr (map (\<lambda>i1. map (c i1) [0..<cols]) [0..<N])"
proof (induction "N - b" arbitrary: b vla)
  case 0
  then show ?case by simp
next
  case (Suc n)
  then have b: "b < N" by simp
  then have range: "[b..<N] = b # [Suc b..<N]"
    by (rule upt_conv_Cons)
  have pad: "replicate (N - b) (replicate cols (0::int))
             = replicate cols 0 # replicate (N - Suc b) (replicate cols 0)"
    using b by (simp add: Suc_diff_Suc flip: replicate_Suc)
  have len: "b < length vla" using b Suc.prems(2) by simp
  have row: "vla ! b = map (c b) [0..<0] @ replicate (cols - 0) 0"
    unfolding Suc.prems(2) pad by (simp add: nth_append)
  from cells b have "\<forall>i < cols. stored body (smiles ! b) k i = Inr (c b i)" by simp
  from group_loop_fill [OF this _ len row]
  have inner: "group_loop body smiles k b [0..<cols] vla = Inr (vla[b := map (c b) [0..<cols]])"
    by simp
  have next_vla: "vla[b := map (c b) [0..<cols]]
        = map (\<lambda>i1. map (c i1) [0..<cols]) [0..<Suc b] @ replicate (N - Suc b) (replicate cols 0)"
    unfolding Suc.prems(2) pad by (simp add: list_update_append)
  have n: "n = N - Suc b" using Suc.hyps(2) by simp
  from b have "Suc b \<le> N" by simp
  from Suc.hyps(1) [OF n this next_vla] inner show ?case
    by (simp add: range)
qed

lemma transform_with_fill:
  assumes "smiles \<noteq> []" and "1 \<le> k" and "cols = length (hd smiles) div nat k"
    and "\<forall>i1 < length smiles. \<forall>i < cols. stored body (smiles ! i1) (nat k) i = Inr (c i1 i)"
  shows "transform_with body smiles k
         = Inr (map (\<lambda>i1. map (c i1) [0..<cols]) [0..<length smiles])"
proof -
  from assms(1) obtain s0 rest where sm: "smiles = s0 # rest"
    by (cases smiles) auto
  have "int (length s0) div k = int (length s0 div nat k)"
    using assms(2) by (simp add: zdiv_int)
  then have d: "int (length s0) div k = int cols"
    using assms(3) sm by simp
  have z: "np_zeros (length smiles) (int cols) = Inr (replicate (length smiles) (replicate cols 0))"
    by (simp add: np_zeros_def)
  have "sample_loop body smiles (nat k) cols [0..<length smiles]
          (replicate (length smiles) (replicate cols 0))
        = Inr (map (\<lambda>i1. map (c i1) [0..<cols]) [0..<length smiles])"
    by (rule sample_loop_fill [OF assms(4)]) simp_all
  then have loop: "sample_loop body smiles (nat k) (nat (int cols)) [0..<length smiles]
          (replicate (length smiles) (replicate cols 0))
        = Inr (map (\<lambda>i1. map (c i1) [0..<cols]) [0..<length smiles])"
    by (simp only: nat_int)
  have k0: "k \<noteq> 0" using assms(2) by simp
  have "transform_with body (s0 # rest) k
        = (case np_zeros (length (s0 # rest)) (int cols) of
             Inl e \<Rightarrow> Inl e
           | Inr vla \<Rightarrow>
               sample_loop body (s0 # rest) (nat k) (nat (int cols)) [0..<length (s0 # rest)] vla)"
    unfolding transform_with_def Let_def by (simp only: list.case k0 if_False d)
  then show ?thesis
    unfolding sm [symmetric] z by (simp only: sum.case loop)
qed

subsection \<open>The matrix for a batch of bit strings\<close>

lemma float64_of_int_value:
  assumes "0 \<le> r" and "r < 2 ^ k" and "k \<le> 1023"
  shows "float64_of_int r = Inr (int (round53 (nat r)))"
proof -
  have "nat r < 2 ^ k"
    using assms(1,2) by (simp add: nat_less_iff)
  then have "round53 (nat r) \<le> 2 ^ k"
    by (rule round53_le)
  also have "(2::nat) ^ k \<le> 2 ^ 1023"
    using assms(3) by (intro power_increasing) simp_all
  finally have small: "round53 (nat r) < 2 ^ 1024"
    by simp
  have "round53 0 = 0"
    by (simp add: round53_exact)
  then have "sgn r * int (round53 (nat r)) = int (round53 (nat r))"
    using assms(1) by (cases "r = 0") simp_all
  with small assms(1) show ?thesis
    by (simp add: float64_of_int_def Let_def)
qed

lemma map_nth_fun: "map (\<lambda>i. f (xs ! i)) [0..<length xs] = map f xs"
  by (rule nth_equalityI) simp_all

lemma group_inside:
  assumes "i < L div k"
  shows "(i + 1) * k \<le> (L::nat)"
proof -
  from assms have "i + 1 \<le> L div k" by simp
  then have "(i + 1) * k \<le> (L div k) * k"
    by (rule mult_le_mono1)
  also have "\<dots> \<le> L" by simp
  finally show ?thesis .
qed

lemma transform_to_vla_bits:
  assumes "smiles \<noteq> []" and "\<forall>s \<in> set smiles. bit_string s \<and> length s = L" and "1 \<le> k"
    and conv: "\<forall>s \<in> set smiles. \<forall>i < L div k. float64_of_int (slice_value s k i) = Inr (c s i)"
  shows "transform_to_vla smiles (int k) = Inr (map (\<lambda>s. map (c s) [0..<L div k]) smiles)"
proof -
  have hd: "length (hd smiles) = L"
    using assms(1,2) by simp
  have cols: "L div k = length (hd smiles) div nat (int k)"
    by (simp add: hd)
  have cells: "\<forall>i1 < length smiles. \<forall>i < L div k.
      stored group_value (smiles ! i1) (nat (int k)) i = Inr (c (smiles ! i1) i)"
  proof (intro allI impI)
    fix i1 i assume i1: "i1 < length smiles" and i: "i < L div k"
    let ?s = "smiles ! i1"
    from i1 assms(2) have s: "bit_string ?s" "length ?s = L" by simp_all
    from group_inside [OF i] s(2) have "(i + 1) * k \<le> length ?s" by simp
    from stored_group_value [OF s(1) this] conv i1 i
    show "stored group_value ?s (nat (int k)) i = Inr (c ?s i)" by simp
  qed
  have k: "1 \<le> int k" using assms(3) by simp
  from transform_with_fill [OF assms(1) k cols cells] show ?thesis
    by (simp only: transform_to_vla_def map_nth_fun [of "\<lambda>s. map (c s) [0..<L div k]" smiles])
qed

lemma transform_to_vla_rounded:
  assumes "smiles \<noteq> []" and "\<forall>s \<in> set smiles. bit_string s \<and> length s = L"
    and "1 \<le> k" and "k \<le> 1023"
  shows "transform_to_vla smiles (int k)
         = Inr (map (\<lambda>s. map (\<lambda>i. int (round53 (nat (slice_value s k i)))) [0..<L div k]) smiles)"
proof (rule transform_to_vla_bits [OF assms(1,2,3)], intro ballI allI impI)
  fix s i
  from slice_value_bounds [of s k i] assms(4)
  show "float64_of_int (slice_value s k i) = Inr (int (round53 (nat (slice_value s k i))))"
    by (intro float64_of_int_value [of _ k]) simp_all
qed

lemma transform_to_vla_exact:
  assumes "smiles \<noteq> []" and "\<forall>s \<in> set smiles. bit_string s \<and> length s = L"
    and "1 \<le> k" and "k \<le> 53"
  shows "transform_to_vla smiles (int k)
         = Inr (map (\<lambda>s. map (\<lambda>i. slice_value s k i) [0..<L div k]) smiles)"
proof (rule transform_to_vla_bits [OF assms(1,2,3)], intro ballI allI impI)
  fix s i
  have "slice_value s k i < 2 ^ k"
    using slice_value_bounds [of s k i] by simp
  also have "(2::int) ^ k \<le> 2 ^ 53"
    using assms(4) by (intro power_increasing) simp_all
  finally show "float64_of_int (slice_value s k i) = Inr (slice_value s k i)"
    using slice_value_bounds [of s k i] by (intro float64_of_int_exact) simp_all
qed

text \<open>For groups of at most 53 bits, what C1 and C4 say holds.\<close>

lemma transform_to_vla_small_groups:
  assumes "smiles \<noteq> []" and "\<forall>s \<in> set smiles. bit_string s \<and> length s = L"
    and "1 \<le> k" and "k \<le> 53" and "k dvd L"
  shows "\<exists>vla. transform_to_vla smiles (int k) = Inr vla \<and> length vla = length smiles
           \<and> (\<forall>i < length smiles. length (vla ! i) = L div k
                \<and> (\<forall>j < L div k. vla ! i ! j = slice_value (smiles ! i) k j
                      \<and> 0 \<le> vla ! i ! j \<and> vla ! i ! j < 2 ^ k))"
  using transform_to_vla_exact [OF assms(1-4)] slice_value_bounds by simp

lemma transform_to_vla_zero_group:
  assumes "smiles \<noteq> []" and "\<forall>s \<in> set smiles. bit_string s \<and> length s = L"
    and "1 \<le> k" and "k \<le> 1023" and "i < length smiles" and "j < L div k"
    and "\<forall>idx < k. smiles ! i ! (j * k + idx) = CHR ''0''"
  shows "\<exists>vla. transform_to_vla smiles (int k) = Inr vla \<and> vla ! i ! j = 0"
proof -
  have "slice_value (smiles ! i) k j = 0"
    using assms(7) by (rule slice_value_zeros)
  moreover have "round53 0 = 0"
    by (simp add: round53_exact)
  ultimately show ?thesis
    using transform_to_vla_rounded [OF assms(1-4)] assms(5,6) by simp
qed

text \<open>The examples of the specification.\<close>

lemma bit_string_literals:
  "bit_string ''010''" "bit_string ''0100000100000000''" "bit_string ''0100000101000010''"
  by (simp_all add: bit_string_def)

lemma slice_value_examples:
  "slice_value ''010'' 2 0 = 1"
  "slice_value ''0100000100000000'' 8 0 = 65"
  "slice_value ''0100000100000000'' 8 (Suc 0) = 0"
  "slice_value ''0100000101000010'' 8 0 = 65"
  "slice_value ''0100000101000010'' 8 (Suc 0) = 66"
  by (simp_all add: slice_value_def bit_value_def upt_rec)

subsection \<open>The sentinel step\<close>

lemma group_loop_cong:
  "\<forall>i \<in> set is. body1 (smiles1 ! i1) k i = body2 (smiles2 ! i1) k i
   \<Longrightarrow> group_loop body1 smiles1 k i1 is vla = group_loop body2 smiles2 k i1 is vla"
  by (induction "is" arbitrary: vla) (simp_all split: sum.splits option.splits)

lemma sample_loop_cong:
  "\<forall>i1 \<in> set is1. \<forall>i < cols. body1 (smiles1 ! i1) k i = body2 (smiles2 ! i1) k i
   \<Longrightarrow> sample_loop body1 smiles1 k cols is1 vla = sample_loop body2 smiles2 k cols is1 vla"
proof (induction is1 arbitrary: vla)
  case Nil
  show ?case by simp
next
  case (Cons i1 is1)
  then have "group_loop body1 smiles1 k i1 [0..<cols] vla
             = group_loop body2 smiles2 k i1 [0..<cols] vla"
    by (intro group_loop_cong) simp
  with Cons show ?case
    by (simp split: sum.splits)
qed

lemma transform_with_cong:
  assumes "1 \<le> k" and "length smiles1 = length smiles2"
    and "length (hd smiles1) div nat k = length (hd smiles2) div nat k"
    and "\<forall>i1 < length smiles1. \<forall>i < length (hd smiles1) div nat k.
           body1 (smiles1 ! i1) (nat k) i = body2 (smiles2 ! i1) (nat k) i"
  shows "transform_with body1 smiles1 k = transform_with body2 smiles2 k"
proof (cases smiles1)
  case Nil
  with assms(2) show ?thesis by (simp add: transform_with_def)
next
  case (Cons s1 rest1)
  with assms(2) obtain s2 rest2 where s2: "smiles2 = s2 # rest2"
    by (cases smiles2) auto
  have d: "int (length s) div k = int (length s div nat k)" for s :: string
    using assms(1) by (simp add: zdiv_int)
  have cols: "length s1 div nat k = length s2 div nat k"
    using assms(3) Cons s2 by simp
  have "sample_loop body1 smiles1 (nat k) (length s1 div nat k) [0..<length smiles1] vla
        = sample_loop body2 smiles2 (nat k) (length s1 div nat k) [0..<length smiles1] vla"
    for vla
    using assms(4) Cons by (intro sample_loop_cong) simp
  then show ?thesis
    unfolding transform_with_def Let_def Cons [symmetric] s2 [symmetric]
    using assms(2) cols
    by (simp add: Cons s2 d del: upt_Suc split: sum.splits)
qed

lemma transform_with_body_cong:
  assumes "\<forall>s \<in> set smiles. \<forall>i. body1 s (nat k) i = body2 s (nat k) i"
  shows "transform_with body1 smiles k = transform_with body2 smiles k"
proof -
  have "sample_loop body1 smiles (nat k) cols [0..<length smiles] vla
        = sample_loop body2 smiles (nat k) cols [0..<length smiles] vla" for cols vla
    using assms by (intro sample_loop_cong) simp
  then show ?thesis
    unfolding transform_with_def Let_def
    by (simp del: upt_Suc split: list.splits sum.splits)
qed

lemma read_bits_range:
  assumes "bit_string s"
  shows "read_bits s js = Inr bits \<Longrightarrow> \<forall>b \<in> set bits. 0 \<le> b \<and> b \<le> 1"
proof (induction js arbitrary: bits)
  case Nil
  then show ?case by simp
next
  case (Cons j js)
  from Cons.prems have j: "j < length s"
    by (simp split: if_splits)
  note py = py_int_bit [OF bit_stringD [OF assms j]]
  from Cons.prems j py obtain bs where bs: "read_bits s js = Inr bs"
    and bits: "bits = bit_value (s ! j) # bs"
    by (auto split: sum.splits)
  from Cons.IH [OF bs] bits show ?case
    by (simp add: bit_value_range)
qed

lemma group_value_simplified_eq:
  assumes "bit_string s"
  shows "group_value s k i = group_value_simplified s k i"
proof (cases "read_bits s [i * k ..< (i + 1) * k]")
  case (Inl e)
  then show ?thesis
    unfolding group_value_def group_value_simplified_def by (simp only: sum.case)
next
  case (Inr bits0)
  note ident = sentinel_maps_id [OF read_bits_range [OF assms Inr]]
  show ?thesis
    unfolding group_value_def group_value_simplified_def Inr
    by (simp add: Let_def ident)
qed

lemma sentinel_step_noop:
  assumes "\<forall>s \<in> set smiles. bit_string s"
  shows "transform_to_vla smiles k = transform_simplified smiles k"
  unfolding transform_to_vla_def transform_simplified_def
  using assms by (intro transform_with_body_cong) (simp add: group_value_simplified_eq)

text \<open>
  C9. For every batch of equal-length bit strings and every \<open>k\<close> dividing the common
  length, the transform with the step that rewrites the sentinel 2 to 0 and computes
  \<open>r20\<close> again returns exactly what the simplified transform without that step
  returns: on bit strings the step has no observable effect.
\<close>

theorem sentinel_step_no_effect:
  assumes "\<forall>s \<in> set smiles. bit_string s \<and> length s = L" and "k dvd int L"
  shows "transform_to_vla smiles k = transform_simplified smiles k"
  using assms(1) by (intro sentinel_step_noop) simp

theorem sentinel_step_no_effect_witness:
  "transform_to_vla [''0100000100000000'', ''0100000101000010''] 8 = Inr [[65, 0], [65, 66]]
   \<and> transform_simplified [''0100000100000000'', ''0100000101000010''] 8 = Inr [[65, 0], [65, 66]]"
proof -
  let ?b = "[''0100000100000000'', ''0100000101000010'']"
  have bits: "\<forall>s \<in> set ?b. bit_string s \<and> length s = 16"
    by (simp add: bit_string_literals)
  have d: "(8::int) dvd int 16" by simp
  have "transform_to_vla ?b (int 8) = Inr [[65, 0], [65, 66]]"
    by (subst transform_to_vla_exact [where L = 16])
      (simp_all add: bit_string_literals slice_value_examples upt_rec)
  then have v: "transform_to_vla ?b 8 = Inr [[65, 0], [65, 66]]" by simp
  from sentinel_step_no_effect [OF bits d] v show ?thesis by simp
qed

subsection \<open>Group sizes that do not divide the length\<close>

text \<open>
  C5 as stated (a group size that does not divide the common length makes the transform
  fail) does not hold: the source has no check of \<open>k\<close> against the length. For the batch
  of the one bit string \<open>010\<close>, of length 3, and \<open>k = 2\<close>, the transform returns the matrix
  of the one group \<open>01\<close>.
\<close>

theorem transform_without_group_check_counterexample:
  "\<not> 2 dvd int (length ''010'') \<and> transform_to_vla [''010''] 2 = Inr [[1]]"
proof -
  have "transform_to_vla [''010''] (int 2) = Inr [[1]]"
    by (subst transform_to_vla_exact [where L = 3])
      (simp_all add: bit_string_literals slice_value_examples)
  then show ?thesis by simp
qed

text \<open>
  C5, amended. For every non-empty batch of bit strings of common length \<open>L\<close> and every
  integer \<open>k\<close> that does not divide \<open>L\<close>: for \<open>k = 0\<close> the transform fails with
  \<open>ZeroDivisionError\<close> (the division \<open>sequence_length // k\<close>); for \<open>k < 0\<close> it fails with
  \<open>ValueError\<close> (the negative dimension given to \<open>np.zeros\<close>); for \<open>1 \<le> k \<le> 1023\<close> it
  returns, without error, a matrix with one row per string and \<open>L div k\<close> columns. The
  statement says nothing about \<open>k \<ge> 1024\<close>.
\<close>

theorem transform_without_group_check:
  assumes "smiles \<noteq> []" and "\<forall>s \<in> set smiles. bit_string s \<and> length s = L"
    and "\<not> k dvd int L"
  shows "(k = 0 \<longrightarrow> transform_to_vla smiles k = Inl ZeroDivisionError)
    \<and> (k < 0 \<longrightarrow> transform_to_vla smiles k = Inl ValueError)
    \<and> (1 \<le> k \<and> k \<le> 1023 \<longrightarrow>
         (\<exists>vla. transform_to_vla smiles k = Inr vla \<and> length vla = length smiles
            \<and> (\<forall>row \<in> set vla. length row = L div nat k)))"
proof (intro conjI impI)
  from assms(1) obtain s0 rest where sm: "smiles = s0 # rest"
    by (cases smiles) auto
  with assms(2) have s0: "length s0 = L" by simp
  {
    assume "k = 0"
    then show "transform_to_vla smiles k = Inl ZeroDivisionError"
      by (simp add: transform_to_vla_def transform_with_def sm)
  }
  {
    assume k: "k < 0"
    from assms(3) have "L \<noteq> 0" by (intro notI) simp
    then have "0 < int L" by simp
    with k have "int L div k < 0"
      by (simp add: neg_imp_zdiv_neg_iff)
    with k show "transform_to_vla smiles k = Inl ValueError"
      by (simp add: transform_to_vla_def transform_with_def sm s0 np_zeros_def)
  }
  {
    assume k: "1 \<le> k \<and> k \<le> 1023"
    then have "1 \<le> nat k" "nat k \<le> 1023" by linarith+
    from transform_to_vla_rounded [OF assms(1,2) this] k
    show "\<exists>vla. transform_to_vla smiles k = Inr vla \<and> length vla = length smiles
            \<and> (\<forall>row \<in> set vla. length row = L div nat k)"
      by auto
  }
qed

theorem transform_without_group_check_witness:
  "(\<exists>vla. transform_to_vla [''010''] 2 = Inr vla \<and> length vla = 1 \<and> length (vla ! 0) = 1)
   \<and> transform_to_vla [''010''] 0 = Inl ZeroDivisionError
   \<and> transform_to_vla [''010''] (- 2) = Inl ValueError"
proof -
  have ne: "[''010''] \<noteq> []" by simp
  have bits: "\<forall>s \<in> set [''010'']. bit_string s \<and> length s = 3"
    by (simp add: bit_string_literals)
  have nd: "\<not> 2 dvd int 3" "\<not> 0 dvd int 3" "\<not> (- 2) dvd int 3"
    by simp_all
  have a: "\<exists>vla. transform_to_vla [''010''] 2 = Inr vla \<and> length vla = 1 \<and> length (vla ! 0) = 1"
    using transform_without_group_check [OF ne bits nd(1)] by auto
  have b: "transform_to_vla [''010''] 0 = Inl ZeroDivisionError"
    using transform_without_group_check [OF ne bits nd(2)] by simp
  have c: "transform_to_vla [''010''] (- 2) = Inl ValueError"
    using transform_without_group_check [OF ne bits nd(3)] by simp
  from a b c show ?thesis by blast
qed

subsection \<open>Groups of more than 53 bits\<close>

lemma round53_ones:
  assumes "53 < w"
  shows "round53 (2 ^ w - 1) = 2 ^ w"
proof -
  define r :: nat where "r = 2 ^ w - 1"
  define shift where "shift = w - 53"
  have w: "w = 53 + shift" and shift: "1 \<le> shift"
    using assms by (simp_all add: shift_def)
  have pw: "(2::nat) ^ w = 2 ^ 53 * 2 ^ shift"
    unfolding w by (rule power_add)
  have "\<not> r < 2 ^ (w - 1)"
  proof -
    have "(2::nat) ^ w = 2 * 2 ^ (w - 1)"
      using assms by (metis Suc_diff_1 less_nat_zero_code not_gr_zero power_Suc)
    moreover have "1 \<le> (2::nat) ^ (w - 1)" by simp
    ultimately show ?thesis by (simp add: r_def)
  qed
  then have "\<not> bit_length r \<le> w - 1"
    by (simp add: bit_length_le_iff)
  moreover have "bit_length r \<le> w"
    by (simp add: bit_length_le_iff r_def)
  ultimately have n: "bit_length r = w" by simp
  define a :: nat where "a = 2 ^ 53 - 1"
  define d :: nat where "d = 2 ^ shift"
  define e where "e = d - 1"
  have pos: "1 \<le> d" by (simp add: d_def)
  then have e: "e < d" by (simp add: e_def)
  have a1: "a + 1 = 2 ^ 53" by (simp add: a_def)
  have r: "r = a * d + e"
  proof -
    have "a * d + e + 1 = a * d + d"
      using pos by (simp add: e_def)
    also have "\<dots> = (a + 1) * d"
      by (simp only: add_mult_distrib mult_1)
    also have "\<dots> = 2 ^ w"
      by (simp only: a1 pw d_def)
    finally show ?thesis
      by (simp add: r_def)
  qed
  have q: "r div 2 ^ shift = a"
    unfolding r d_def [symmetric] using e by simp
  have rest: "r mod 2 ^ shift = e"
    unfolding r d_def [symmetric] using e by simp
  have half: "(2::nat) ^ (shift - 1) \<le> e"
  proof -
    have "d = 2 * 2 ^ (shift - 1)"
      unfolding d_def using shift by (metis Suc_diff_1 Suc_le_eq power_Suc One_nat_def)
    moreover have "1 \<le> (2::nat) ^ (shift - 1)" by simp
    ultimately show ?thesis unfolding e_def by linarith
  qed
  have odd: "odd a" by (simp add: a_def)
  have up: "(2::nat) ^ (shift - 1) < e \<or> (e = (2::nat) ^ (shift - 1) \<and> odd a)"
    using half odd by linarith
  have "round53 r = (a + 1) * 2 ^ shift"
    unfolding round53_def Let_def n shift_def [symmetric] q rest
    using assms up by (simp only: if_True if_False not_le [symmetric] simp_thms)
  also have "\<dots> = 2 ^ w"
    by (simp only: a1 pw)
  finally show ?thesis
    by (simp only: r_def)
qed

lemma float64_of_int_ones:
  assumes "53 < w"
  shows "float64_of_int (2 ^ w - 1) = (if 1024 \<le> w then Inl OverflowError else Inr (2 ^ w))"
proof -
  have a: "nat \<bar>2 ^ w - 1 :: int\<bar> = 2 ^ w - 1"
    by (simp add: nat_diff_distrib nat_power_eq)
  have s: "sgn (2 ^ w - 1 :: int) = 1"
    using assms by (simp add: sgn_1_pos)
  have c: "(2::nat) ^ 1024 \<le> 2 ^ w \<longleftrightarrow> 1024 \<le> w"
    by (rule power_increasing_iff) simp
  show ?thesis
    unfolding float64_of_int_def Let_def a round53_ones [OF assms] c s
    by simp
qed

lemma format_08b_C: "format_08b 67 = ''01000011''"
  by (simp add: format_08b_def format_b.simps bit_char_def)

lemma format_08b_255: "format_08b 255 = ''11111111''"
  by (simp add: format_08b_def format_b.simps bit_char_def)

lemma replicate_56: "replicate 56 CHR ''1'' = ''11111111111111111111111111111111111111111111111111111111''"
  by (simp add: numeral_eq_Suc)

lemma float64_of_int_CCCCCCCC: "float64_of_int 4846791580151137091 = Inr 4846791580151137280"
  by (simp add: float64_of_int_def round53_def bit_length.simps Let_def)

lemma bit_string_ones: "bit_string (replicate n CHR ''1'')"
  by (simp add: bit_string_def list_all_length)

text \<open>
  C1 says that for every batch of equal-length bit strings of common length \<open>L\<close> and every
  \<open>k\<close> dividing \<open>L\<close>, the cell \<open>(i, j)\<close> holds exactly the positional value of the \<open>k\<close>-bit
  slice \<open>[j * k, (j + 1) * k)\<close> of string \<open>i\<close>, and 0 for a group of zeros. The source
  computes that value exactly, as the integer \<open>r20\<close>, and then stores it in a matrix of
  doubles, which keeps 53 significant bits. For the raw batch of the one string
  \<open>CCCCCCCC\<close> and \<open>k = 64\<close>, the value of the only group is 4846791580151137091 and the
  cell holds 4846791580151137280. For \<open>k \<le> 53\<close> the cell holds the exact value
  (\<open>transform_to_vla_small_groups\<close>), and a group of zeros gives 0
  (\<open>transform_to_vla_zero_group\<close>).
\<close>

theorem transform_rounds_group_value:
  "encode [[67, 67, 67, 67, 67, 67, 67, 67]] = Inr ([''0100001101000011010000110100001101000011010000110100001101000011''], 64)
   \<and> slice_value ''0100001101000011010000110100001101000011010000110100001101000011'' 64 0 = 4846791580151137091
   \<and> transform_to_vla [''0100001101000011010000110100001101000011010000110100001101000011''] 64 = Inr [[4846791580151137280]]"
proof -
  let ?s = "''0100001101000011010000110100001101000011010000110100001101000011''"
  have e: "encode [[67, 67, 67, 67, 67, 67, 67, 67]] = Inr ([?s], 64)"
    by (simp add: encode_def smiles_to_binary_def format_08b_C)
  have v: "slice_value ?s 64 0 = 4846791580151137091"
    by (simp add: slice_value_def bit_value_def upt_rec)
  have b: "\<forall>s \<in> set [?s]. bit_string s \<and> length s = 64"
    by (simp add: bit_string_def)
  have c: "\<forall>s \<in> set [?s]. \<forall>i < 64 div 64.
             float64_of_int (slice_value s 64 i) = Inr 4846791580151137280"
    by (simp add: v float64_of_int_CCCCCCCC)
  have "transform_to_vla [?s] (int 64)
        = Inr (map (\<lambda>s. map (\<lambda>i. 4846791580151137280) [0..<64 div 64]) [?s])"
    by (rule transform_to_vla_bits [OF _ b _ c]) simp_all
  then have t: "transform_to_vla [?s] 64 = Inr [[4846791580151137280]]"
    by simp
  from e v t show ?thesis by (intro conjI)
qed

text \<open>
  C4 says that for every batch of \<open>N\<close> equal-length bit strings of common length \<open>L\<close> and
  every \<open>k\<close> in \<open>find_divisors L\<close>, the matrix has \<open>N\<close> rows and \<open>L div k\<close> columns and every
  cell holds a non-negative integer below \<open>2 ^ k\<close>. The shape is as claimed, and the bound
  holds for \<open>k \<le> 53\<close> (\<open>transform_to_vla_small_groups\<close>). A group of more than 53 bits,
  all of them 1, has the value \<open>2 ^ k - 1\<close>, which the matrix of doubles rounds to
  \<open>2 ^ k\<close>: for the raw batch of the one string of seven characters of code point 255 and
  \<open>k = 56\<close> the cell holds \<open>2 ^ 56\<close>.
\<close>

theorem transform_cell_reaches_power:
  "encode [[255, 255, 255, 255, 255, 255, 255]] = Inr ([replicate 56 CHR ''1''], 56)
   \<and> transform_to_vla [replicate 56 CHR ''1''] 56 = Inr [[72057594037927936]]
   \<and> (72057594037927936 :: int) = 2 ^ 56"
proof -
  let ?s = "replicate 56 CHR ''1''"
  have e: "encode [[255, 255, 255, 255, 255, 255, 255]] = Inr ([?s], 56)"
    by (simp add: encode_def smiles_to_binary_def format_08b_255 replicate_56)
  have v: "slice_value ?s 56 0 = 2 ^ 56 - 1"
    by (rule slice_value_ones) simp
  have b: "\<forall>s \<in> set [?s]. bit_string s \<and> length s = 56"
    by (simp add: bit_string_ones)
  have "float64_of_int (2 ^ 56 - 1) = Inr (2 ^ 56)"
    by (subst float64_of_int_ones) simp_all
  with v have c: "\<forall>s \<in> set [?s]. \<forall>i < 56 div 56.
      float64_of_int (slice_value s 56 i) = Inr (2 ^ 56)"
    by simp
  have "transform_to_vla [?s] (int 56) = Inr (map (\<lambda>s. map (\<lambda>i. 2 ^ 56) [0..<56 div 56]) [?s])"
    by (rule transform_to_vla_bits [OF _ b _ c]) simp_all
  then have t: "transform_to_vla [?s] 56 = Inr [[72057594037927936]]"
    by simp
  have "(72057594037927936 :: int) = 2 ^ 56" by simp
  with e t show ?thesis by (intro conjI)
qed

lemma read_bits_take:
  "\<forall>j \<in> set js. j < m \<Longrightarrow> m \<le> length s \<Longrightarrow> read_bits (take m s) js = read_bits s js"
  by (induction js) (simp_all split: sum.splits)

lemma group_value_take:
  assumes "(i + 1) * k \<le> m" and "m \<le> length s"
  shows "group_value (take m s) k i = group_value s k i"
proof -
  have "\<forall>j \<in> set [i * k ..< (i + 1) * k]. j < m"
    using assms(1) by auto
  from read_bits_take [OF this assms(2)] show ?thesis
    unfolding group_value_def by (simp only:)
qed

text \<open>
  The bits of a row after the last whole group are never read: the transform of the batch
  cut to \<open>(L div k) * k\<close> characters per row is the transform of the batch.
\<close>

lemma transform_ignores_trailing_bits:
  assumes "1 \<le> k" and "\<forall>s \<in> set smiles. length s = L"
  shows "transform_to_vla (map (take (L div k * k)) smiles) (int k) = transform_to_vla smiles (int k)"
  unfolding transform_to_vla_def
proof (rule transform_with_cong)
  let ?m = "L div k * k"
  show "1 \<le> int k" using assms(1) by simp
  show "length (map (take ?m) smiles) = length smiles" by simp
  have m: "?m \<le> L" by simp
  have cols: "?m div k = L div k" using assms(1) by simp
  show hd: "length (hd (map (take ?m) smiles)) div nat (int k) = length (hd smiles) div nat (int k)"
  proof (cases smiles)
    case Nil
    then show ?thesis by simp
  next
    case (Cons s0 rest)
    with assms(2) have "length s0 = L" by simp
    with Cons m cols show ?thesis by (simp add: min_absorb2)
  qed
  show "\<forall>i1 < length (map (take ?m) smiles).
          \<forall>i < length (hd (map (take ?m) smiles)) div nat (int k).
            group_value (map (take ?m) smiles ! i1) (nat (int k)) i
            = group_value (smiles ! i1) (nat (int k)) i"
  proof (intro allI impI)
    fix i1 i
    assume i1: "i1 < length (map (take ?m) smiles)"
      and i: "i < length (hd (map (take ?m) smiles)) div nat (int k)"
    from i1 have i1': "i1 < length smiles" by simp
    then have ne: "smiles \<noteq> []" by auto
    with assms(2) have "length (hd smiles) = L" by simp
    with i hd have "i < L div k" by simp
    then have "(i + 1) * k \<le> ?m"
      by (intro mult_le_mono1) simp
    moreover from i1' assms(2) have "?m \<le> length (smiles ! i1)" by simp
    ultimately show "group_value (map (take ?m) smiles ! i1) (nat (int k)) i
        = group_value (smiles ! i1) (nat (int k)) i"
      using i1' by (simp add: group_value_take)
  qed
qed

text \<open>
  C10 says that for every non-empty batch of equal-length bit strings of common length
  \<open>L\<close> and every \<open>k\<close> with \<open>1 \<le> k \<le> L\<close> that does not divide \<open>L\<close>, \<open>transform_to_vla\<close>
  returns without error a matrix of shape \<open>N\<close> by \<open>L div k\<close>, computed from the first
  \<open>(L div k) * k\<close> bits of each row only. The result never depends on the trailing bits
  (\<open>transform_ignores_trailing_bits\<close>), and for \<open>k \<le> 1023\<close> the transform returns a
  matrix of that shape (\<open>transform_to_vla_rounded\<close>). A group of 1024 bits, all of them 1,
  is too large for a double, and the assignment to the cell raises \<open>OverflowError\<close>: so it
  is for the one string of 1025 characters \<open>1\<close> and \<open>k = 1024\<close>.
\<close>

theorem transform_overflow:
  "\<not> (1024::int) dvd 1025
   \<and> transform_to_vla [replicate 1025 CHR ''1''] 1024 = Inl OverflowError"
proof -
  define s where "s = replicate 1025 CHR ''1''"
  define r :: int where "r = 2 ^ 1024 - 1"
  have len: "length s = 1025" by (simp add: s_def)
  have bs: "bit_string s" unfolding s_def by (rule bit_string_ones)
  have fl: "float64_of_int r = Inl OverflowError"
    unfolding r_def by (subst float64_of_int_ones) simp_all
  have "(2::int) ^ 1 \<le> 2 ^ 1024"
    by (rule power_increasing) simp_all
  then have r0: "r \<noteq> 0" by (simp add: r_def)
  have "slice_value s 1024 0 = r"
    unfolding r_def by (rule slice_value_ones) (simp add: s_def)
  with group_value_bit_string [OF bs, of 0 1024] len r0
  have gv: "group_value s 1024 0 = Inr (Some r)"
    by simp
  have cols: "int (length s) div 1024 = 1"
    by (simp add: len)
  have "transform_with group_value [s] 1024 = Inl OverflowError"
    unfolding transform_with_def Let_def
    by (simp add: cols np_zeros_def gv setitem_def fl)
  then show ?thesis
    by (simp add: transform_to_vla_def s_def)
qed

end
